theory Spec2Isabelle
  imports Complex_Main "HOL-Library.Multiset"
begin

section \<open>Data model\<close>

text \<open>
  The geometry utilities of \<^verbatim>\<open>vector.py\<close> work on numpy arrays of shape
  \<^verbatim>\<open>(a1, a2, ..., d)\<close> whose last axis indexes the dimension. A batch is modelled as
  the sequence of its vectors (shape \<^verbatim>\<open>(n, d)\<close>): \<open>ncols\<close> is \<^verbatim>\<open>shape[-1]\<close>, which
  an array has also when it holds no vector, and \<open>rows\<close> are the \<open>n\<close> vectors. A numpy
  array is rectangular: \<open>wf_array\<close> says that every row has \<open>ncols\<close> entries.

  The entries are float64 in the source. They are modelled as real numbers, and every
  operation as the exact operation on reals: rounding is not modelled. A float that is
  not finite is kept apart (\<open>npfloat\<close>): numpy's division by zero raises nothing, it
  yields \<^verbatim>\<open>nan\<close> or an infinity with a warning.
\<close>

datatype error = Exception string

record 'a ndarray =
  ncols :: nat
  rows :: "'a list list"

definition wf_array :: "'a ndarray \<Rightarrow> bool" where
  "wf_array v = list_all (\<lambda>r. length r = ncols v) (rows v)"

definition array_size :: "'a ndarray \<Rightarrow> nat" where
  \<comment> \<open>\<^verbatim>\<open>v.size\<close>\<close>
  "array_size v = length (rows v) * ncols v"

datatype npfloat = Fin real | PosInf | NegInf | NaN

definition np_divide :: "real \<Rightarrow> real \<Rightarrow> npfloat" where
  \<comment> \<open>float division of finite values (signed zeros apart)\<close>
  "np_divide x y =
     (if y \<noteq> 0 then Fin (x / y)
      else if 0 < x then PosInf else if x < 0 then NegInf else NaN)"

section \<open>Magnitudes\<close>

definition np_square :: "real list \<Rightarrow> real list" where
  "np_square r = map (\<lambda>x. x * x) r"

definition vector_mag_sq :: "real ndarray \<Rightarrow> real list" where
  \<comment> \<open>\<^verbatim>\<open>np.square(v).sum(axis=-1)\<close>\<close>
  "vector_mag_sq v = map (\<lambda>r. sum_list (np_square r)) (rows v)"

definition vector_mag :: "real ndarray \<Rightarrow> real list" where
  \<comment> \<open>\<^verbatim>\<open>np.sqrt(vector_mag_sq(v))\<close>\<close>
  "vector_mag v = map sqrt (vector_mag_sq v)"

section \<open>Unit vectors\<close>

definition vector_unit_nonull :: "real ndarray \<Rightarrow> npfloat ndarray" where
  \<comment> \<open>\<^verbatim>\<open>v / vector_mag(v)[..., np.newaxis]\<close>: a null vector gives \<^verbatim>\<open>nan\<close> entries\<close>
  "vector_unit_nonull v =
     (if array_size v = 0 then \<lparr>ncols = ncols v, rows = map (map Fin) (rows v)\<rparr>
      else \<lparr>ncols = ncols v,
             rows = map2 (\<lambda>r m. map (\<lambda>x. np_divide x m) r) (rows v) (vector_mag v)\<rparr>)"


section \<open>The random generator\<close>

text \<open>
  The sampling functions draw from numpy's global generator \<^verbatim>\<open>np.random\<close>, a state
  outside their arguments. The state is made explicit: \<open>rng\<close> is the sequence of raw
  draws still to come, each in \<open>[0, 1)\<close> (\<open>wf_rng\<close>). A call that returns \<open>n\<close> values
  takes the first \<open>n\<close> draws and leaves the rest: \<^verbatim>\<open>uniform(lo, hi, n)\<close> scales them to
  \<open>[lo, hi)\<close>, \<^verbatim>\<open>randint(high, size=n)\<close> to the integers below \<open>high\<close>.
\<close>

type_synonym rng = "nat \<Rightarrow> real"

definition wf_rng :: "rng \<Rightarrow> bool" where
  "wf_rng g = (\<forall>k. 0 \<le> g k \<and> g k < 1)"

definition rng_advance :: "nat \<Rightarrow> rng \<Rightarrow> rng" where
  "rng_advance n g = (\<lambda>k. g (k + n))"

definition random_uniform :: "real \<Rightarrow> real \<Rightarrow> nat \<Rightarrow> rng \<Rightarrow> real list \<times> rng" where
  "random_uniform lo hi n g =
     (map (\<lambda>k. lo + (hi - lo) * g k) [0..<n], rng_advance n g)"

definition random_randint :: "int \<Rightarrow> nat \<Rightarrow> rng \<Rightarrow> int list \<times> rng" where
  "random_randint high n g =
     (map (\<lambda>k. \<lfloor>real_of_int high * g k\<rfloor>) [0..<n], rng_advance n g)"

section \<open>Coordinate system transformations\<close>

definition polar_to_cart :: "real ndarray \<Rightarrow> error + real ndarray" where
  "polar_to_cart arr_p =
     (if ncols arr_p = 1 then Inr arr_p
      else if ncols arr_p = 2 then
        Inr \<lparr>ncols = ncols arr_p,
             rows = map (\<lambda>p. [p ! 0 * cos (p ! 1), p ! 0 * sin (p ! 1)]) (rows arr_p)\<rparr>
      else if ncols arr_p = 3 then
        Inr \<lparr>ncols = ncols arr_p,
             rows = map (\<lambda>p. [p ! 0 * sin (p ! 1) * cos (p ! 2),
                               p ! 0 * sin (p ! 1) * sin (p ! 2),
                               p ! 0 * cos (p ! 1)]) (rows arr_p)\<rparr>
      else Inl (Exception ''Invalid vector for polar representation''))"

definition arctan2 :: "real \<Rightarrow> real \<Rightarrow> real" where
  \<comment> \<open>\<^verbatim>\<open>np.arctan2(y, x)\<close> on finite values (signed zeros apart): the angle in \<open>(-pi, pi]\<close>\<close>
  "arctan2 y x =
     (if 0 < x then arctan (y / x)
      else if x < 0 then (if 0 \<le> y then arctan (y / x) + pi else arctan (y / x) - pi)
      else if 0 < y then pi / 2
      else if y < 0 then - (pi / 2)
      else 0)"

definition np_arccos :: "npfloat \<Rightarrow> npfloat" where
  \<comment> \<open>\<^verbatim>\<open>np.arccos\<close>: \<^verbatim>\<open>nan\<close> outside \<open>[-1, 1]\<close>\<close>
  "np_arccos c =
     (case c of Fin x \<Rightarrow> (if - 1 \<le> x \<and> x \<le> 1 then Fin (arccos x) else NaN)
      | _ \<Rightarrow> NaN)"

definition cart_to_polar :: "real ndarray \<Rightarrow> error + npfloat ndarray" where
  "cart_to_polar arr_c =
     (if ncols arr_c = 1 then Inr \<lparr>ncols = ncols arr_c, rows = map (map Fin) (rows arr_c)\<rparr>
      else if ncols arr_c = 2 then
        Inr \<lparr>ncols = ncols arr_c,
             rows = map2 (\<lambda>c m. [Fin m, Fin (arctan2 (c ! 1) (c ! 0))])
                      (rows arr_c) (vector_mag arr_c)\<rparr>
      else if ncols arr_c = 3 then
        Inr \<lparr>ncols = ncols arr_c,
             rows = map2 (\<lambda>c m. [Fin m, np_arccos (np_divide (c ! 2) m),
                                  Fin (arctan2 (c ! 1) (c ! 0))])
                      (rows arr_c) (vector_mag arr_c)\<rparr>
      else Inl (Exception ''Invalid vector for polar representation''))"

section \<open>Sampling on the unit sphere and disk\<close>

definition sphere_pick_polar :: "nat \<Rightarrow> nat \<Rightarrow> rng \<Rightarrow> (error + real ndarray) \<times> rng" where
  "sphere_pick_polar d n g =
     (if d = 1 then
        (let (bs, g') = random_randint 2 n g
         in (Inr \<lparr>ncols = d, rows = map (\<lambda>b. [real_of_int (b * 2 - 1)]) bs\<rparr>, g'))
      else if d = 2 then
        (let (ts, g') = random_uniform (- pi) pi n g
         in (Inr \<lparr>ncols = d, rows = map (\<lambda>t. [1, t]) ts\<rparr>, g'))
      else if d = 3 then
        (let (uv, g') = random_uniform 0 1 (2 * n) g;
             u = take n uv;
             v = drop n uv
         in (Inr \<lparr>ncols = d,
                  rows = map2 (\<lambda>u v. [1, arccos (2 * v - 1), 2 * pi * u]) u v\<rparr>, g'))
      else (Inl (Exception ''Invalid vector for polar representation''), g))"


definition disk_pick_polar :: "nat \<Rightarrow> rng \<Rightarrow> real ndarray \<times> rng" where
  "disk_pick_polar n g =
     (let (us, g1) = random_uniform 0 1 n g;
          (ts, g2) = random_uniform 0 (2 * pi) n g1
      in (\<lparr>ncols = 2, rows = map2 (\<lambda>u t. [sqrt u, t]) us ts\<rparr>, g2))"

definition disk_pick :: "nat \<Rightarrow> rng \<Rightarrow> (error + real ndarray) \<times> rng" where
  "disk_pick n g = (let (a, g') = disk_pick_polar n g in (polar_to_cart a, g'))"



section \<open>Angles\<close>

definition np_dot :: "real list \<Rightarrow> real list \<Rightarrow> real" where
  "np_dot a b = sum_list (map2 (*) a b)"







section \<open>Perpendicular vectors\<close>

definition vector_perp :: "real ndarray \<Rightarrow> error + real ndarray" where
  "vector_perp v =
     (if ncols v \<noteq> 2
      then Inl (Exception ''Can only define a unique perpendicular vector in 2d'')
      else Inr \<lparr>ncols = ncols v, rows = map (\<lambda>r. [r ! 1, - (r ! 0)]) (rows v)\<rparr>)"

section \<open>The neighbor-finding engine\<close>

text \<open>
  The module \<^verbatim>\<open>numerics\<close> with \<^verbatim>\<open>interacts_direct\<close>, \<^verbatim>\<open>interacts_cl_checks\<close> and
  \<^verbatim>\<open>interacts_cl_nochecks\<close> is not among the sources: only its caller
  \<^verbatim>\<open>test_numerics.py\<close> is. The engine is modelled from sections 3 and 4 of the
  specification, over real coordinates. A point is a pair of coordinates, a neighbor
  relation is the list of the neighbor collections of the particles, in the order in
  which the neighbors were added.
\<close>

datatype engine_error = DomainError | InvalidParameterError | InternalConsistencyError

type_synonym point = "real \<times> real"

type_synonym neighbor_relation = "nat list list"

definition min_image :: "real \<Rightarrow> real \<Rightarrow> real" where
  \<comment> \<open>Modelled from the spec: the minimum-image correction of section 4.1 (\<^verbatim>\<open>numerics\<close> is
      missing): if \<open>d > L/2\<close> subtract \<open>L\<close>, if \<open>d < -L/2\<close> add \<open>L\<close>.\<close>
  "min_image L d = (if d > L / 2 then d - L else if d < - (L / 2) then d + L else d)"

definition squaredDistance :: "real \<Rightarrow> point \<Rightarrow> point \<Rightarrow> engine_error + real" where
  \<comment> \<open>Modelled from the spec: the Periodic Distance Rule of section 4.1 (\<^verbatim>\<open>numerics\<close> is
      missing): the sum of the squared corrected differences, \<open>DomainError\<close> if \<open>L \<le> 0\<close>.\<close>
  "squaredDistance L p1 p2 =
     (if L \<le> 0 then Inl DomainError
      else Inr ((min_image L (fst p2 - fst p1))\<^sup>2 + (min_image L (snd p2 - snd p1))\<^sup>2))"

definition add_pair :: "nat \<Rightarrow> nat \<Rightarrow> neighbor_relation \<Rightarrow> neighbor_relation" where
  \<comment> \<open>Modelled from the spec: "add j to neighbors(i) and i to neighbors(j)" (section 4.2).\<close>
  "add_pair i j nb = (let nb' = nb[i := nb ! i @ [j]] in nb'[j := nb' ! j @ [i]])"

definition visit ::
  "real \<Rightarrow> real \<Rightarrow> point list \<Rightarrow> nat \<times> nat \<Rightarrow> neighbor_relation
     \<Rightarrow> engine_error + neighbor_relation" where
  \<comment> \<open>Modelled from the spec: one pair of sections 4.2 and 4.4: evaluate the Periodic
      Distance Rule and accept the pair if the squared distance is \<open>\<le> R\<^sup>2\<close>.\<close>
  "visit L R pts ij nb =
     (case squaredDistance L (pts ! fst ij) (pts ! snd ij) of
        Inl e \<Rightarrow> Inl e
      | Inr d2 \<Rightarrow> Inr (if d2 \<le> R\<^sup>2 then add_pair (fst ij) (snd ij) nb else nb))"

fun foldE :: "('a \<Rightarrow> 's \<Rightarrow> 'e + 's) \<Rightarrow> 'a list \<Rightarrow> 's \<Rightarrow> 'e + 's" where
  \<comment> \<open>a loop whose body can fail: the first error ends it\<close>
  "foldE f [] s = Inr s"
| "foldE f (x # xs) s = (case f x s of Inl e \<Rightarrow> Inl e | Inr s' \<Rightarrow> foldE f xs s')"

definition direct_pairs :: "nat \<Rightarrow> (nat \<times> nat) list" where
  \<comment> \<open>Modelled from the spec: "every unordered pair (i, j), i < j" (section 4.2).\<close>
  "direct_pairs n = concat (map (\<lambda>i. map (Pair i) [Suc i..<n]) [0..<n])"

definition findNeighborsDirect ::
  "point list \<Rightarrow> real \<Rightarrow> real \<Rightarrow> engine_error + neighbor_relation" where
  \<comment> \<open>Modelled from the spec: the Direct Strategy of section 4.2, \<^verbatim>\<open>interacts_direct\<close> of
      the missing \<^verbatim>\<open>numerics\<close>; \<open>InvalidParameterError\<close> for \<open>L \<le> 0\<close> or \<open>R \<le> 0\<close>
      (section 7).\<close>
  "findNeighborsDirect pts L R =
     (if L \<le> 0 \<or> R \<le> 0 then Inl InvalidParameterError
      else foldE (visit L R pts) (direct_pairs (length pts)) (replicate (length pts) []))"

record cell_grid =
  side_cells :: nat
  occupants :: "nat list list"

definition wrap_coord :: "real \<Rightarrow> real \<Rightarrow> real" where
  \<comment> \<open>Modelled from the spec: the "periodic-wrapped coordinate" in \<open>[0, L)\<close> of
      section 4.3.\<close>
  "wrap_coord L x = x - L * of_int \<lfloor>x / L\<rfloor>"

definition cell_coord :: "real \<Rightarrow> nat \<Rightarrow> real \<Rightarrow> int" where
  \<comment> \<open>Modelled from the spec: section 4.3: divide the wrapped coordinate by the cell
      side \<open>s = L/C\<close>, floor, and clamp to \<open>[0, C-1]\<close>.\<close>
  "cell_coord L C x = max 0 (min (int C - 1) \<lfloor>wrap_coord L x / (L / real C)\<rfloor>)"

definition cell_of :: "real \<Rightarrow> nat \<Rightarrow> point \<Rightarrow> int \<times> int" where
  "cell_of L C p = (cell_coord L C (fst p), cell_coord L C (snd p))"

definition cell_slot :: "nat \<Rightarrow> int \<times> int \<Rightarrow> nat" where
  \<comment> \<open>the place of cell \<open>(r, c)\<close> in the array of the \<open>C \<times> C\<close> cells\<close>
  "cell_slot C rc = nat (fst rc * int C + snd rc)"

definition grid_cells :: "real \<Rightarrow> real \<Rightarrow> nat" where
  \<comment> \<open>Modelled from the spec: \<open>C = max(1, floor(L/R))\<close> (section 4.3).\<close>
  "grid_cells L R = max 1 (nat \<lfloor>L / R\<rfloor>)"

definition buildGrid :: "point list \<Rightarrow> real \<Rightarrow> real \<Rightarrow> engine_error + cell_grid" where
  \<comment> \<open>Modelled from the spec: the Cell List Builder of section 4.3 (\<^verbatim>\<open>numerics\<close> is
      missing): every particle index is appended to the occupant list of its cell.\<close>
  "buildGrid pts L R =
     (if R \<le> 0 \<or> L \<le> 0 then Inl InvalidParameterError
      else (let C = grid_cells L R
            in Inr \<lparr>side_cells = C,
                    occupants =
                      fold (\<lambda>i occ. occ[cell_slot C (cell_of L C (pts ! i))
                                           := occ ! cell_slot C (cell_of L C (pts ! i)) @ [i]])
                        [0..<length pts] (replicate (C * C) [])\<rparr>))"

definition block_cells :: "nat \<Rightarrow> int \<times> int \<Rightarrow> (int \<times> int) list" where
  \<comment> \<open>Modelled from the spec: section 4.4: the 3x3 block of cells centered on \<open>(r, c)\<close>,
      row and column indices wrapped modulo \<open>C\<close>, each cell once.\<close>
  "block_cells C rc =
     remdups (concat (map (\<lambda>dr. map (\<lambda>dc. ((fst rc + dr) mod int C, (snd rc + dc) mod int C))
                                    [- 1, 0, 1]) [- 1, 0, 1]))"

definition all_cells :: "nat \<Rightarrow> (int \<times> int) list" where
  "all_cells C = concat (map (\<lambda>r. map (\<lambda>c. (int r, int c)) [0..<C]) [0..<C])"

definition cell_occupants :: "bool \<Rightarrow> cell_grid \<Rightarrow> int \<times> int \<Rightarrow> engine_error + nat list" where
  \<comment> \<open>Modelled from the spec: section 4.4: the checked mode validates that the cell
      index lies in \<open>[0, C-1]\<close> before the array access, the unchecked mode does not.\<close>
  "cell_occupants checked g rc =
     (if checked \<and> \<not> (0 \<le> fst rc \<and> fst rc < int (side_cells g)
                        \<and> 0 \<le> snd rc \<and> snd rc < int (side_cells g))
      then Inl InternalConsistencyError
      else Inr (occupants g ! cell_slot (side_cells g) rc))"

definition scan_block ::
  "bool \<Rightarrow> cell_grid \<Rightarrow> real \<Rightarrow> real \<Rightarrow> point list \<Rightarrow> nat \<Rightarrow> (int \<times> int) list
     \<Rightarrow> neighbor_relation \<Rightarrow> engine_error + neighbor_relation" where
  \<comment> \<open>Modelled from the spec: section 4.4: particle \<open>i\<close> against every particle \<open>j\<close> of
      the block cells with \<open>i < j\<close>.\<close>
  "scan_block checked g L R pts i bs nb =
     foldE (\<lambda>b nb. case cell_occupants checked g b of
                      Inl e \<Rightarrow> Inl e
                    | Inr js \<Rightarrow> foldE (\<lambda>j nb. if i < j then visit L R pts (i, j) nb else Inr nb)
                                 js nb)
       bs nb"

definition scan_cell ::
  "bool \<Rightarrow> cell_grid \<Rightarrow> real \<Rightarrow> real \<Rightarrow> point list \<Rightarrow> int \<times> int
     \<Rightarrow> neighbor_relation \<Rightarrow> engine_error + neighbor_relation" where
  "scan_cell checked g L R pts rc nb =
     (case cell_occupants checked g rc of
        Inl e \<Rightarrow> Inl e
      | Inr is \<Rightarrow>
          foldE (\<lambda>i nb. scan_block checked g L R pts i (block_cells (side_cells g) rc) nb)
            is nb)"

definition findNeighborsCellList ::
  "point list \<Rightarrow> real \<Rightarrow> real \<Rightarrow> bool \<Rightarrow> engine_error + neighbor_relation" where
  \<comment> \<open>Modelled from the spec: the Cell List Strategy of section 4.4,
      \<^verbatim>\<open>interacts_cl_checks\<close> (\<open>checked\<close>) and \<^verbatim>\<open>interacts_cl_nochecks\<close> of the missing
      \<^verbatim>\<open>numerics\<close>; the checked mode validates \<open>R > 0\<close> and \<open>L > 0\<close> at entry.\<close>
  "findNeighborsCellList pts L R checked =
     (if checked \<and> (L \<le> 0 \<or> R \<le> 0) then Inl InvalidParameterError
      else case buildGrid pts L R of
             Inl e \<Rightarrow> Inl e
           | Inr g \<Rightarrow>
               foldE (scan_cell checked g L R pts) (all_cells (side_cells g))
                 (replicate (length pts) []))"

definition sorted_relation :: "neighbor_relation \<Rightarrow> neighbor_relation" where
  \<comment> \<open>\<^verbatim>\<open>[sorted(entry) for entry in d]\<close> of \<^verbatim>\<open>test_consistency\<close>\<close>
  "sorted_relation nb = map sort nb"

definition in_grid :: "nat \<Rightarrow> int \<times> int \<Rightarrow> bool" where
  \<comment> \<open>a cell index of the \<open>C \<times> C\<close> grid\<close>
  "in_grid C rc \<longleftrightarrow> 0 \<le> fst rc \<and> fst rc < int C \<and> 0 \<le> snd rc \<and> snd rc < int C"

definition accepted :: "real \<Rightarrow> real \<Rightarrow> point list \<Rightarrow> nat \<times> nat \<Rightarrow> bool" where
  \<comment> \<open>the ordered pairs \<open>i < j\<close> within the interaction radius\<close>
  "accepted L R pts ij \<longleftrightarrow>
     fst ij < snd ij
     \<and> (min_image L (fst (pts ! snd ij) - fst (pts ! fst ij)))\<^sup>2
       + (min_image L (snd (pts ! snd ij) - snd (pts ! fst ij)))\<^sup>2 \<le> R\<^sup>2"

definition occupants_of :: "real \<Rightarrow> nat \<Rightarrow> point list \<Rightarrow> int \<times> int \<Rightarrow> nat list" where
  \<comment> \<open>the particles of a cell, in increasing order\<close>
  "occupants_of L C pts rc = filter (\<lambda>i. cell_of L C (pts ! i) = rc) [0..<length pts]"

definition cell_pairs :: "real \<Rightarrow> nat \<Rightarrow> point list \<Rightarrow> (nat \<times> nat) list" where
  \<comment> \<open>the pairs that the cell scan examines, in its order\<close>
  "cell_pairs L C pts =
     concat (map (\<lambda>rc. concat (map (\<lambda>i. concat (map (\<lambda>b. map (Pair i) (occupants_of L C pts b))
                                                    (block_cells C rc)))
                                   (occupants_of L C pts rc)))
               (all_cells C))"

definition partners :: "(nat \<times> nat) list \<Rightarrow> nat \<Rightarrow> nat multiset" where
  \<comment> \<open>the neighbors that a list of accepted pairs gives particle \<open>k\<close>\<close>
  "partners ps k =
     image_mset snd (filter_mset (\<lambda>p. fst p = k) (mset ps))
     + image_mset fst (filter_mset (\<lambda>p. snd p = k) (mset ps))"


section \<open>Properties of the magnitudes\<close>





section \<open>Properties of the perpendicular\<close>

lemma np_dot_2: "np_dot [a, b] [c, d] = a * c + b * d"
  by (simp add: np_dot_def)

lemma len2: "length r = 2 \<Longrightarrow> r = [r ! 0, r ! 1]"
  by (cases r; cases "tl r"; auto)

lemma wf_nth: "wf_array v \<Longrightarrow> i < length (rows v) \<Longrightarrow> length (rows v ! i) = ncols v"
  by (simp add: wf_array_def list_all_length)

text \<open>
  C9. On a batch of shape \<open>(n, 2)\<close>, \<open>vector_perp\<close> returns the batch whose row \<open>i\<close>
  is \<open>(v[i][1], -v[i][0])\<close>: that row is orthogonal to row \<open>i\<close> of the input and has
  the same magnitude. When the last axis of the input does not have length 2,
  \<open>vector_perp\<close> raises and returns nothing.
\<close>

theorem vector_perp_correct:
  "(ncols v \<noteq> 2 \<longrightarrow> (\<exists>e. vector_perp v = Inl e))
   \<and> (ncols v = 2 \<and> wf_array v \<longrightarrow>
        (\<exists>p. vector_perp v = Inr p \<and> ncols p = 2 \<and> wf_array p
           \<and> length (rows p) = length (rows v)
           \<and> (\<forall>i < length (rows v).
                rows p ! i = [rows v ! i ! 1, - (rows v ! i ! 0)]
              \<and> np_dot (rows p ! i) (rows v ! i) = 0
              \<and> vector_mag p ! i = vector_mag v ! i)))"
proof (intro conjI impI)
  assume "ncols v \<noteq> 2"
  then show "\<exists>e. vector_perp v = Inl e" by (simp add: vector_perp_def)
next
  assume a: "ncols v = 2 \<and> wf_array v"
  define p where "p = \<lparr>ncols = ncols v, rows = map (\<lambda>r. [r ! 1, - (r ! 0)]) (rows v)\<rparr>"
  have vp: "vector_perp v = Inr p" using a by (simp add: vector_perp_def p_def)
  have wfp: "wf_array p" using a by (simp add: p_def wf_array_def list_all_iff)
  have rows: "\<forall>i < length (rows v).
                rows p ! i = [rows v ! i ! 1, - (rows v ! i ! 0)]
              \<and> np_dot (rows p ! i) (rows v ! i) = 0
              \<and> vector_mag p ! i = vector_mag v ! i"
  proof (intro allI impI)
    fix i assume i: "i < length (rows v)"
    have l: "length (rows v ! i) = 2" using a i wf_nth by metis
    then obtain x y where xy: "rows v ! i = [x, y]" using len2 by metis
    have r: "rows p ! i = [y, - x]" using i xy by (simp add: p_def)
    show "rows p ! i = [rows v ! i ! 1, - (rows v ! i ! 0)]
              \<and> np_dot (rows p ! i) (rows v ! i) = 0
              \<and> vector_mag p ! i = vector_mag v ! i"
      using i xy r by (simp add: np_dot_2 vector_mag_def vector_mag_sq_def np_square_def p_def)
  qed
  show "\<exists>p. vector_perp v = Inr p \<and> ncols p = 2 \<and> wf_array p
           \<and> length (rows p) = length (rows v)
           \<and> (\<forall>i < length (rows v).
                rows p ! i = [rows v ! i ! 1, - (rows v ! i ! 0)]
              \<and> np_dot (rows p ! i) (rows v ! i) = 0
              \<and> vector_mag p ! i = vector_mag v ! i)"
    using vp wfp rows a by (intro exI[of _ p]) (simp add: p_def)
qed

theorem vector_perp_correct_witness:
  "vector_perp \<lparr>ncols = 2, rows = [[3, 4]]\<rparr> = Inr \<lparr>ncols = 2, rows = [[4, - 3]]\<rparr>
   \<and> np_dot [4, - 3] [3, 4] = 0
   \<and> (\<exists>e. vector_perp \<lparr>ncols = 3, rows = [[1, 2, 3]]\<rparr> = Inl e)"
proof -
  let ?v = "\<lparr>ncols = 2, rows = [[3, 4 :: real]]\<rparr>"
  have w: "ncols ?v = 2 \<and> wf_array ?v" by (simp add: wf_array_def)
  from vector_perp_correct [of ?v] w obtain p where
    p: "vector_perp ?v = Inr p" "ncols p = 2" "length (rows p) = length (rows ?v)"
       "\<forall>i < length (rows ?v). rows p ! i = [rows ?v ! i ! 1, - (rows ?v ! i ! 0)]
              \<and> np_dot (rows p ! i) (rows ?v ! i) = 0"
    by blast
  have r0: "rows p ! 0 = [4, - 3]" using p(4) by simp
  have d0: "np_dot [4, - 3] [3, 4] = 0" using p(4) r0 by auto
  have "rows p = [[4, - 3]]" using p(3) r0 by (cases "rows p") auto
  then have "p = \<lparr>ncols = 2, rows = [[4, - 3]]\<rparr>" using p(2) by (cases p) simp
  moreover have "\<exists>e. vector_perp \<lparr>ncols = 3, rows = [[1, 2, 3 :: real]]\<rparr> = Inl e"
    using vector_perp_correct [of "\<lparr>ncols = 3, rows = [[1, 2, 3 :: real]]\<rparr>"] by simp
  ultimately show ?thesis using p(1) d0 by simp
qed

section \<open>Properties of the unit vectors\<close>



lemma vector_mag_nth:
  "i < length (rows v) \<Longrightarrow> vector_mag v ! i = sqrt (sum_list (np_square (rows v ! i)))"
  by (simp add: vector_mag_def vector_mag_sq_def)

lemma length_vector_mag: "length (vector_mag v) = length (rows v)"
  by (simp add: vector_mag_def vector_mag_sq_def)



section \<open>Which dimensions the conversions accept\<close>

lemma wf_array_map2:
  "(\<And>r m. length (f r m) = d) \<Longrightarrow> wf_array \<lparr>ncols = d, rows = map2 f xs ys\<rparr>"
  by (auto simp add: wf_array_def list_all_iff)

lemma wf_array_map:
  "(\<And>r. length (f r) = d) \<Longrightarrow> wf_array \<lparr>ncols = d, rows = map f xs\<rparr>"
  by (auto simp add: wf_array_def list_all_iff)

lemma polar_to_cart_raises: "(\<exists>e. polar_to_cart a = Inl e) \<longleftrightarrow> ncols a \<notin> {1, 2, 3}"
  by (simp add: polar_to_cart_def)

lemma cart_to_polar_raises: "(\<exists>e. cart_to_polar a = Inl e) \<longleftrightarrow> ncols a \<notin> {1, 2, 3}"
  by (simp add: cart_to_polar_def)

lemma sphere_pick_polar_raises:
  "(\<exists>e. fst (sphere_pick_polar d n g) = Inl e) \<longleftrightarrow> d \<notin> {1, 2, 3}"
  by (simp add: sphere_pick_polar_def Let_def split_beta)

lemma polar_to_cart_shape:
  assumes "ncols a \<in> {1, 2, 3}" and "wf_array a"
  shows "\<exists>c. polar_to_cart a = Inr c \<and> ncols c = ncols a
           \<and> length (rows c) = length (rows a) \<and> wf_array c"
proof -
  consider "ncols a = 1" | "ncols a = 2" | "ncols a = 3" using assms(1) by auto
  then show ?thesis
  proof cases
    case 1
    then show ?thesis using assms(2) by (simp add: polar_to_cart_def)
  next
    case 2
    then show ?thesis by (simp add: polar_to_cart_def wf_array_map)
  next
    case 3
    then show ?thesis by (simp add: polar_to_cart_def wf_array_map)
  qed
qed

lemma cart_to_polar_shape:
  assumes "ncols a \<in> {1, 2, 3}" and "wf_array a"
  shows "\<exists>c. cart_to_polar a = Inr c \<and> ncols c = ncols a
           \<and> length (rows c) = length (rows a) \<and> wf_array c"
proof -
  consider "ncols a = 1" | "ncols a = 2" | "ncols a = 3" using assms(1) by auto
  then show ?thesis
  proof cases
    case 1
    then show ?thesis using assms(2)
      by (simp add: cart_to_polar_def wf_array_def list_all_iff)
  next
    case 2
    then show ?thesis by (simp add: cart_to_polar_def wf_array_map2 length_vector_mag)
  next
    case 3
    then show ?thesis by (simp add: cart_to_polar_def wf_array_map2 length_vector_mag)
  qed
qed

lemma sphere_pick_polar_shape:
  assumes "d \<in> {1, 2, 3}"
  shows "\<exists>p. fst (sphere_pick_polar d n g) = Inr p \<and> ncols p = d
           \<and> length (rows p) = n \<and> wf_array p"
proof -
  consider "d = 1" | "d = 2" | "d = 3" using assms by auto
  then show ?thesis
  proof cases
    case 1
    then show ?thesis
      by (simp add: sphere_pick_polar_def random_randint_def wf_array_map)
  next
    case 2
    then show ?thesis
      by (simp add: sphere_pick_polar_def random_uniform_def wf_array_map)
  next
    case 3
    then show ?thesis
      by (simp add: sphere_pick_polar_def random_uniform_def Let_def wf_array_map2)
  qed
qed

text \<open>
  C10. Each of \<open>polar_to_cart\<close>, \<open>cart_to_polar\<close> and \<open>sphere_pick_polar\<close> raises exactly
  when the dimension (the length of the last axis of the input, the argument \<open>d\<close> of
  \<open>sphere_pick_polar\<close>) is not 1, 2 or 3. With a dimension of 1, 2 or 3 it returns an
  array of the documented shape, every row of it filled: the shape of the input for
  the conversions, \<open>(n, d)\<close> for \<open>sphere_pick_polar\<close>.
\<close>

theorem dimension_errors:
  "((\<exists>e. polar_to_cart a = Inl e) \<longleftrightarrow> ncols a \<notin> {1, 2, 3})
   \<and> ((\<exists>e. cart_to_polar a = Inl e) \<longleftrightarrow> ncols a \<notin> {1, 2, 3})
   \<and> ((\<exists>e. fst (sphere_pick_polar d n g) = Inl e) \<longleftrightarrow> d \<notin> {1, 2, 3})
   \<and> (ncols a \<in> {1, 2, 3} \<and> wf_array a \<longrightarrow>
        (\<exists>c. polar_to_cart a = Inr c \<and> ncols c = ncols a
           \<and> length (rows c) = length (rows a) \<and> wf_array c)
      \<and> (\<exists>p. cart_to_polar a = Inr p \<and> ncols p = ncols a
           \<and> length (rows p) = length (rows a) \<and> wf_array p))
   \<and> (d \<in> {1, 2, 3} \<longrightarrow>
        (\<exists>p. fst (sphere_pick_polar d n g) = Inr p \<and> ncols p = d
           \<and> length (rows p) = n \<and> wf_array p))"
  using polar_to_cart_raises [of a] cart_to_polar_raises [of a]
    sphere_pick_polar_raises [of d n g] polar_to_cart_shape [of a]
    cart_to_polar_shape [of a] sphere_pick_polar_shape [of d n g]
  by blast

theorem dimension_errors_witness:
  "(\<exists>c. polar_to_cart \<lparr>ncols = 2, rows = [[1, 0]]\<rparr> = Inr c \<and> length (rows c) = 1)
   \<and> (\<exists>p. cart_to_polar \<lparr>ncols = 2, rows = [[1, 0]]\<rparr> = Inr p \<and> length (rows p) = 1)
   \<and> (\<exists>p. fst (sphere_pick_polar 3 2 (\<lambda>k. 1 / 4)) = Inr p \<and> length (rows p) = 2)
   \<and> (\<exists>e. polar_to_cart \<lparr>ncols = 4, rows = [[1, 0, 0, 0]]\<rparr> = Inl e)
   \<and> (\<exists>e. fst (sphere_pick_polar 0 2 (\<lambda>k. 1 / 4)) = Inl e)"
proof -
  let ?a = "\<lparr>ncols = 2, rows = [[1, 0 :: real]]\<rparr>"
  let ?b = "\<lparr>ncols = 4, rows = [[1, 0, 0, 0 :: real]]\<rparr>"
  have w: "ncols ?a \<in> {1, 2, 3} \<and> wf_array ?a" by (simp add: wf_array_def)
  have 1: "\<exists>c. polar_to_cart ?a = Inr c \<and> length (rows c) = 1"
    using dimension_errors [of ?a 3 2 "\<lambda>k. 1 / 4"] w by fastforce
  have 2: "\<exists>p. cart_to_polar ?a = Inr p \<and> length (rows p) = 1"
    using dimension_errors [of ?a 3 2 "\<lambda>k. 1 / 4"] w by fastforce
  have 3: "\<exists>p. fst (sphere_pick_polar 3 2 (\<lambda>k. 1 / 4)) = Inr p \<and> length (rows p) = 2"
    using dimension_errors [of ?a 3 2 "\<lambda>k. 1 / 4"] by fastforce
  have 4: "\<exists>e. polar_to_cart ?b = Inl e"
    using dimension_errors [of ?b 0 2 "\<lambda>k. 1 / 4"] by simp
  have 5: "\<exists>e. fst (sphere_pick_polar 0 2 (\<lambda>k. 1 / 4)) = Inl e"
    using dimension_errors [of ?b 0 2 "\<lambda>k. 1 / 4"] by simp
  show ?thesis using 1 2 3 4 5 by blast
qed

section \<open>The conversions are inverse to each other\<close>













section \<open>Properties of the angle\<close>








section \<open>Properties of the samplers\<close>












lemma mag_polar_abs:
  "sqrt (sum_list (np_square [r * cos t, r * sin t])) = \<bar>r\<bar>"
proof -
  have "r * cos t * (r * cos t) + r * sin t * (r * sin t)
          = r * r * (cos t * cos t) + r * r * (sin t * sin t)"
    by (simp only: mult_ac)
  also have "\<dots> = r * r * (cos t * cos t + sin t * sin t)"
    by (simp only: distrib_left)
  also have "\<dots> = r * r" by (simp only: sin_cos_squared_add3 mult_1_right)
  finally show ?thesis by (simp add: np_square_def)
qed

lemma polar_to_cart_2_mag:
  assumes "i < length ps"
  shows "vector_mag \<lparr>ncols = 2,
           rows = map (\<lambda>p. [p ! 0 * cos (p ! 1), p ! 0 * sin (p ! 1)]) ps\<rparr> ! i
         = \<bar>ps ! i ! 0\<bar>"
  using assms mag_polar_abs [of "ps ! i ! 0" "ps ! i ! 1"]
  by (simp only: vector_mag_nth ndarray.simps length_map nth_map)

lemma disk_pick_polar_rows:
  "fst (disk_pick_polar n g)
     = \<lparr>ncols = 2,
        rows = map (\<lambda>k. [sqrt (0 + (1 - 0) * g k), 0 + (2 * pi - 0) * g (k + n)]) [0..<n]\<rparr>"
proof -
  have "map2 (\<lambda>u t. [sqrt u, t]) (map (\<lambda>k. 0 + (1 - 0) * g k) [0..<n])
          (map (\<lambda>k. 0 + (2 * pi - 0) * rng_advance n g k) [0..<n])
        = map (\<lambda>k. [sqrt (0 + (1 - 0) * g k), 0 + (2 * pi - 0) * g (k + n)]) [0..<n]"
    by (rule nth_equalityI) (simp_all add: rng_advance_def)
  then show ?thesis
    by (simp add: disk_pick_polar_def random_uniform_def)
qed

text \<open>
  C8. For every sample count \<open>n\<close> and every state of the generator (every outcome of
  the draws), \<open>disk_pick n\<close> returns \<open>n\<close> vectors of dimension 2 and each has magnitude
  at most 1: the radius of row \<open>i\<close> of \<open>disk_pick_polar n\<close> is the square root of draw
  \<open>i\<close>, a number in \<open>[0, 1)\<close>.
\<close>

theorem disk_pick_in_unit_disk:
  assumes "wf_rng g"
  shows "\<exists>a. fst (disk_pick n g) = Inr a \<and> length (rows a) = n \<and> ncols a = 2
           \<and> (\<forall>i<n. vector_mag a ! i \<le> 1
                \<and> rows (fst (disk_pick_polar n g)) ! i ! 0 = sqrt (g i)
                \<and> 0 \<le> g i \<and> g i < 1)"
proof -
  let ?p = "fst (disk_pick_polar n g)"
  let ?a = "\<lparr>ncols = 2,
             rows = map (\<lambda>p. [p ! 0 * cos (p ! 1), p ! 0 * sin (p ! 1)]) (rows ?p)\<rparr>"
  have lp: "length (rows ?p) = n" and np: "ncols ?p = 2"
    by (simp_all add: disk_pick_polar_rows)
  have a: "fst (disk_pick n g) = Inr ?a"
    using np by (simp add: disk_pick_def polar_to_cart_def split_beta)
  have r: "vector_mag ?a ! i \<le> 1 \<and> rows ?p ! i ! 0 = sqrt (g i) \<and> 0 \<le> g i \<and> g i < 1"
    if "i < n" for i
  proof -
    have u: "0 \<le> g i" "g i < 1" using assms by (simp_all add: wf_rng_def)
    have rad: "rows ?p ! i ! 0 = sqrt (g i)" using that by (simp add: disk_pick_polar_rows)
    have "vector_mag ?a ! i = \<bar>rows ?p ! i ! 0\<bar>"
      using that lp by (intro polar_to_cart_2_mag) simp
    also have "\<dots> = sqrt (g i)" using rad u(1) by simp
    also have "\<dots> \<le> 1" using u(2) by simp
    finally show ?thesis using rad u by simp
  qed
  show ?thesis using a r lp by (intro exI [of _ ?a]) simp
qed

theorem disk_pick_in_unit_disk_witness:
  "fst (disk_pick 1 (\<lambda>k. 1 / 4)) = Inr \<lparr>ncols = 2, rows = [[0, 1 / 2]]\<rparr>
   \<and> vector_mag \<lparr>ncols = 2, rows = [[0, 1 / 2]]\<rparr> ! 0 \<le> 1"
proof -
  let ?g = "\<lambda>k :: nat. 1 / 4 :: real"
  have w: "wf_rng ?g" by (simp add: wf_rng_def)
  have s: "sqrt (1 / 4) = 1 / 2"
    using real_sqrt_abs [of "1 / 2"] by (simp add: power2_eq_square)
  have e: "fst (disk_pick 1 ?g) = Inr \<lparr>ncols = 2, rows = [[0, 1 / 2]]\<rparr>"
    by (simp add: disk_pick_def split_beta disk_pick_polar_rows polar_to_cart_def s)
  obtain a where "fst (disk_pick 1 ?g) = Inr a" and "\<forall>i<1. vector_mag a ! i \<le> 1"
    using disk_pick_in_unit_disk [OF w, of 1] by auto
  then have "vector_mag \<lparr>ncols = 2, rows = [[0, 1 / 2]]\<rparr> ! 0 \<le> 1" using e by simp
  then show ?thesis using e by simp
qed




















section \<open>The three strategies agree\<close>

lemma foldE_total:
  "(\<And>x s. x \<in> set xs \<Longrightarrow> f x s = Inr (h x s)) \<Longrightarrow> foldE f xs s = Inr (fold h xs s)"
  by (induction xs arbitrary: s) simp_all

lemma fold_filter_if:
  "fold (\<lambda>x s. if P x then f x s else s) xs s = fold f (filter P xs) s"
  by (induction xs arbitrary: s) simp_all

lemma fold_nested:
  "fold (\<lambda>x s. fold h (g x) s) xs s = fold h (concat (map g xs)) s"
  by (induction xs arbitrary: s) simp_all

lemma length_add_pair: "length (add_pair i j nb) = length nb"
  by (simp add: add_pair_def Let_def)

lemma add_pair_nth:
  assumes "i < length nb" and "j < length nb" and "i \<noteq> j" and "k < length nb"
  shows "add_pair i j nb ! k
           = (if k = i then nb ! i @ [j] else if k = j then nb ! j @ [i] else nb ! k)"
  using assms by (simp add: add_pair_def Let_def nth_list_update)

lemma partners_Nil: "partners [] k = {#}"
  by (simp add: partners_def)

lemma partners_Cons:
  "partners (p # ps) k
     = (if fst p = k then {#snd p#} else {#}) + (if snd p = k then {#fst p#} else {#})
       + partners ps k"
  by (simp add: partners_def)

lemma fold_add_pair:
  assumes "\<forall>p\<in>set ps. fst p < length nb \<and> snd p < length nb \<and> fst p \<noteq> snd p"
  shows "length (fold (\<lambda>p. add_pair (fst p) (snd p)) ps nb) = length nb
       \<and> (\<forall>k<length nb.
            mset (fold (\<lambda>p. add_pair (fst p) (snd p)) ps nb ! k) = mset (nb ! k) + partners ps k)"
  using assms
proof (induction ps arbitrary: nb)
  case Nil
  then show ?case by (simp add: partners_Nil)
next
  case (Cons p ps)
  let ?nb = "add_pair (fst p) (snd p) nb"
  have p: "fst p < length nb" "snd p < length nb" "fst p \<noteq> snd p"
    using Cons.prems by simp_all
  have l: "length ?nb = length nb" by (rule length_add_pair)
  have "\<forall>q\<in>set ps. fst q < length ?nb \<and> snd q < length ?nb \<and> fst q \<noteq> snd q"
    using Cons.prems l by simp
  then have ih: "length (fold (\<lambda>p. add_pair (fst p) (snd p)) ps ?nb) = length ?nb
       \<and> (\<forall>k<length ?nb.
            mset (fold (\<lambda>p. add_pair (fst p) (snd p)) ps ?nb ! k)
              = mset (?nb ! k) + partners ps k)"
    by (rule Cons.IH)
  have step: "mset (?nb ! k) + partners ps k = mset (nb ! k) + partners (p # ps) k"
    if "k < length nb" for k
    using p that by (simp add: add_pair_nth partners_Cons)
  show ?case using ih l step by simp
qed

lemma sort_cong_mset: "mset xs = mset ys \<Longrightarrow> sort xs = sort ys"
  by (metis properties_for_sort mset_sort sorted_sort)

lemma partners_cong: "mset ps = mset qs \<Longrightarrow> partners ps k = partners qs k"
  by (simp add: partners_def)

lemma sorted_relation_cong:
  assumes "mset ps = mset qs"
    and "\<forall>p\<in>set ps. fst p < n \<and> snd p < n \<and> fst p \<noteq> snd p"
  shows "sorted_relation (fold (\<lambda>p. add_pair (fst p) (snd p)) ps (replicate n []))
           = sorted_relation (fold (\<lambda>p. add_pair (fst p) (snd p)) qs (replicate n []))"
proof -
  let ?f = "\<lambda>ps. fold (\<lambda>p. add_pair (fst p) (snd p)) ps (replicate n [])"
  have "set qs = set ps" using assms(1) by (metis set_mset_mset)
  then have q: "\<forall>p\<in>set qs. fst p < n \<and> snd p < n \<and> fst p \<noteq> snd p"
    using assms(2) by simp
  have a: "length (?f ps) = n \<and> (\<forall>k<n. mset (?f ps ! k) = partners ps k)"
    using fold_add_pair [of ps "replicate n []"] assms(2) by simp
  have b: "length (?f qs) = n \<and> (\<forall>k<n. mset (?f qs ! k) = partners qs k)"
    using fold_add_pair [of qs "replicate n []"] q by simp
  show ?thesis unfolding sorted_relation_def
  proof (rule nth_equalityI)
    show "length (map sort (?f ps)) = length (map sort (?f qs))" using a b by simp
  next
    fix k
    assume "k < length (map sort (?f ps))"
    then have k: "k < n" using a by simp
    have "mset (?f ps ! k) = mset (?f qs ! k)"
      using a b k partners_cong [OF assms(1)] by simp
    then have "sort (?f ps ! k) = sort (?f qs ! k)" by (rule sort_cong_mset)
    then show "map sort (?f ps) ! k = map sort (?f qs) ! k" using a b k by simp
  qed
qed

lemma visit_total:
  assumes "0 < L"
  shows "visit L R pts ij nb
           = Inr (if (min_image L (fst (pts ! snd ij) - fst (pts ! fst ij)))\<^sup>2
                      + (min_image L (snd (pts ! snd ij) - snd (pts ! fst ij)))\<^sup>2 \<le> R\<^sup>2
                  then add_pair (fst ij) (snd ij) nb else nb)"
  using assms by (simp add: visit_def squaredDistance_def)

lemma set_direct_pairs: "set (direct_pairs n) = {(i, j). i < j \<and> j < n}"
proof -
  have e: "set (direct_pairs n) = (\<Union>i\<in>{0..<n}. Pair i ` {Suc i..<n})"
    by (simp add: direct_pairs_def)
  have "(\<Union>i\<in>{0..<n}. Pair i ` {Suc i..<n}) = {(i, j). i < j \<and> j < n}"
  proof (intro set_eqI iffI)
    fix p
    assume "p \<in> (\<Union>i\<in>{0..<n}. Pair i ` {Suc i..<n})"
    then obtain i j where "p = (i, j)" and "Suc i \<le> j" and "j < n" by auto
    then show "p \<in> {(i, j). i < j \<and> j < n}" by simp
  next
    fix p :: "nat \<times> nat"
    assume "p \<in> {(i, j). i < j \<and> j < n}"
    then obtain i j where p: "p = (i, j)" and ij: "i < j" "j < n" by auto
    have "i \<in> {0..<n}" and "j \<in> {Suc i..<n}" using ij by simp_all
    then show "p \<in> (\<Union>i\<in>{0..<n}. Pair i ` {Suc i..<n})" unfolding p by blast
  qed
  then show ?thesis using e by simp
qed

lemma distinct_concat_map:
  assumes "distinct xs" and "\<And>x. x \<in> set xs \<Longrightarrow> distinct (f x)"
    and "\<And>x y. x \<in> set xs \<Longrightarrow> y \<in> set xs \<Longrightarrow> x \<noteq> y \<Longrightarrow> set (f x) \<inter> set (f y) = {}"
  shows "distinct (concat (map f xs))"
  using assms
proof (induction xs)
  case Nil
  then show ?case by simp
next
  case (Cons x xs)
  have "distinct (concat (map f xs))" using Cons by simp
  moreover have "distinct (f x)" using Cons.prems(2) by simp
  moreover have "set (f x) \<inter> set (concat (map f xs)) = {}"
  proof -
    have "set (f x) \<inter> set (f y) = {}" if "y \<in> set xs" for y
      using Cons.prems(1) Cons.prems(3) [of x y] that by auto
    then show ?thesis by auto
  qed
  ultimately show ?case by simp
qed

lemma distinct_direct_pairs: "distinct (direct_pairs n)"
  unfolding direct_pairs_def
  by (rule distinct_concat_map) (auto simp add: distinct_map inj_on_def)

lemma direct_total:
  assumes "0 < L" and "0 < R"
  shows "findNeighborsDirect pts L R
           = Inr (fold (\<lambda>p. add_pair (fst p) (snd p))
                    (filter (accepted L R pts) (direct_pairs (length pts)))
                    (replicate (length pts) []))"
proof -
  let ?w = "\<lambda>ij. (min_image L (fst (pts ! snd ij) - fst (pts ! fst ij)))\<^sup>2
                  + (min_image L (snd (pts ! snd ij) - snd (pts ! fst ij)))\<^sup>2 \<le> R\<^sup>2"
  let ?ps = "direct_pairs (length pts)"
  let ?nb = "replicate (length pts) ([] :: nat list)"
  have "foldE (visit L R pts) ?ps ?nb
          = Inr (fold (\<lambda>ij nb. if ?w ij then add_pair (fst ij) (snd ij) nb else nb) ?ps ?nb)"
    by (rule foldE_total) (rule visit_total [OF assms(1)])
  also have "fold (\<lambda>ij nb. if ?w ij then add_pair (fst ij) (snd ij) nb else nb) ?ps ?nb
          = fold (\<lambda>p. add_pair (fst p) (snd p)) (filter ?w ?ps) ?nb"
    by (rule fold_filter_if)
  also have "filter ?w ?ps = filter (accepted L R pts) ?ps"
    by (rule filter_cong) (auto simp add: accepted_def set_direct_pairs)
  finally show ?thesis using assms by (simp add: findNeighborsDirect_def)
qed

lemma fold_bucket:
  assumes "\<forall>i\<in>set xs. f i < length occ"
  shows "length (fold (\<lambda>i occ. occ[f i := occ ! f i @ [i]]) xs occ) = length occ
       \<and> (\<forall>k<length occ.
            fold (\<lambda>i occ. occ[f i := occ ! f i @ [i]]) xs occ ! k
              = occ ! k @ filter (\<lambda>i. f i = k) xs)"
  using assms
proof (induction xs arbitrary: occ)
  case Nil
  then show ?case by simp
next
  case (Cons x xs)
  let ?occ = "occ[f x := occ ! f x @ [x]]"
  have x: "f x < length occ" using Cons.prems by simp
  have "\<forall>i\<in>set xs. f i < length ?occ" using Cons.prems by simp
  then have ih: "length (fold (\<lambda>i occ. occ[f i := occ ! f i @ [i]]) xs ?occ) = length ?occ
       \<and> (\<forall>k<length ?occ.
            fold (\<lambda>i occ. occ[f i := occ ! f i @ [i]]) xs ?occ ! k
              = ?occ ! k @ filter (\<lambda>i. f i = k) xs)"
    by (rule Cons.IH)
  have "?occ ! k @ filter (\<lambda>i. f i = k) xs = occ ! k @ filter (\<lambda>i. f i = k) (x # xs)"
    if "k < length occ" for k
    using that x by (simp add: nth_list_update)
  then show ?case using ih by simp
qed

lemma grid_cells_pos: "0 < grid_cells L R"
  by (simp add: grid_cells_def)

lemma cell_coord_range: "0 < C \<Longrightarrow> 0 \<le> cell_coord L C x \<and> cell_coord L C x < int C"
  by (simp add: cell_coord_def)

lemma cell_of_in_grid: "0 < C \<Longrightarrow> in_grid C (cell_of L C p)"
  by (simp add: in_grid_def cell_of_def cell_coord_range)

lemma cell_slot_less:
  assumes "in_grid C rc"
  shows "cell_slot C rc < C * C"
proof -
  have r: "0 \<le> fst rc" "fst rc \<le> int C - 1" and c: "0 \<le> snd rc" "snd rc < int C"
    using assms by (simp_all add: in_grid_def)
  have "fst rc * int C \<le> (int C - 1) * int C"
    using r(2) by (intro mult_right_mono) simp_all
  then have "fst rc * int C + snd rc < int C * int C"
    using c(2) by (simp add: algebra_simps)
  moreover have "0 \<le> fst rc * int C + snd rc" using r(1) c(1) by simp
  ultimately show ?thesis unfolding cell_slot_def
    by (metis nat_less_iff of_nat_mult)
qed

lemma cell_slot_inj:
  assumes "in_grid C rc" and "in_grid C rc'" and "cell_slot C rc = cell_slot C rc'"
  shows "rc = rc'"
proof -
  have a: "0 \<le> fst rc" "0 \<le> snd rc" "snd rc < int C"
    and b: "0 \<le> fst rc'" "0 \<le> snd rc'" "snd rc' < int C"
    using assms(1,2) by (simp_all add: in_grid_def)
  have "0 \<le> fst rc * int C + snd rc" and "0 \<le> fst rc' * int C + snd rc'"
    using a b by simp_all
  then have e: "fst rc * int C + snd rc = fst rc' * int C + snd rc'"
    using assms(3) by (simp add: cell_slot_def)
  have "(fst rc * int C + snd rc) div int C = fst rc"
    using a by simp
  moreover have "(fst rc' * int C + snd rc') div int C = fst rc'"
    using b by simp
  ultimately have f: "fst rc = fst rc'" using e by simp
  then have "snd rc = snd rc'" using e by simp
  then show ?thesis using f by (simp add: prod_eq_iff)
qed

lemma buildGrid_total:
  assumes "0 < L" and "0 < R"
  shows "\<exists>g. buildGrid pts L R = Inr g \<and> side_cells g = grid_cells L R
           \<and> (\<forall>rc. in_grid (grid_cells L R) rc \<longrightarrow>
                 occupants g ! cell_slot (grid_cells L R) rc
                   = occupants_of L (grid_cells L R) pts rc)"
proof -
  let ?C = "grid_cells L R"
  let ?f = "\<lambda>i. cell_slot ?C (cell_of L ?C (pts ! i))"
  let ?occ = "fold (\<lambda>i occ. occ[?f i := occ ! ?f i @ [i]]) [0..<length pts]
                (replicate (?C * ?C) [])"
  have C: "0 < ?C" by (rule grid_cells_pos)
  have g: "buildGrid pts L R = Inr \<lparr>side_cells = ?C, occupants = ?occ\<rparr>"
    using assms by (simp add: buildGrid_def Let_def)
  have "\<forall>i\<in>set [0..<length pts]. ?f i < length (replicate (?C * ?C) ([] :: nat list))"
    using cell_slot_less [OF cell_of_in_grid [OF C]] by simp
  then have b: "\<forall>k<?C * ?C. ?occ ! k = filter (\<lambda>i. ?f i = k) [0..<length pts]"
    using fold_bucket [of "[0..<length pts]" ?f "replicate (?C * ?C) []"] by simp
  have "?occ ! cell_slot ?C rc = occupants_of L ?C pts rc" if rc: "in_grid ?C rc" for rc
  proof -
    have "?occ ! cell_slot ?C rc = filter (\<lambda>i. ?f i = cell_slot ?C rc) [0..<length pts]"
      using b cell_slot_less [OF rc] by simp
    also have "\<dots> = filter (\<lambda>i. cell_of L ?C (pts ! i) = rc) [0..<length pts]"
    proof (rule filter_cong [OF refl])
      fix i
      have "cell_of L ?C (pts ! i) = rc" if "?f i = cell_slot ?C rc"
        using cell_of_in_grid [OF C] rc that by (rule cell_slot_inj)
      then show "(?f i = cell_slot ?C rc) = (cell_of L ?C (pts ! i) = rc)" by blast
    qed
    finally show ?thesis by (simp add: occupants_of_def)
  qed
  then show ?thesis using g by simp
qed

lemma set_block_cells:
  "b \<in> set (block_cells C rc) \<longleftrightarrow>
     (\<exists>dr\<in>{- 1, 0, 1}. \<exists>dc\<in>{- 1, 0, 1}.
        b = ((fst rc + dr) mod int C, (snd rc + dc) mod int C))"
proof -
  have "set (block_cells C rc)
          = (\<Union>dr\<in>set [- 1, 0, 1].
               (\<lambda>dc. ((fst rc + dr) mod int C, (snd rc + dc) mod int C)) ` set [- 1, 0, 1])"
    unfolding block_cells_def set_remdups by (simp only: set_concat set_map image_image)
  also have "set [- 1, 0, 1 :: int] = {- 1, 0, 1}" by simp
  finally show ?thesis by blast
qed

lemma distinct_block_cells: "distinct (block_cells C rc)"
  unfolding block_cells_def by (rule distinct_remdups)

lemma block_cells_in_grid:
  assumes "0 < C" and "b \<in> set (block_cells C rc)"
  shows "in_grid C b"
proof -
  obtain dr dc where "b = ((fst rc + dr) mod int C, (snd rc + dc) mod int C)"
    using assms(2) unfolding set_block_cells by blast
  then show ?thesis using assms(1) by (simp add: in_grid_def)
qed

lemma all_cells_in_grid: "rc \<in> set (all_cells C) \<Longrightarrow> in_grid C rc"
  by (auto simp add: all_cells_def in_grid_def)

lemma cell_occupants_total:
  assumes "side_cells g = C"
    and "\<forall>rc. in_grid C rc \<longrightarrow> occupants g ! cell_slot C rc = occupants_of L C pts rc"
    and "in_grid C rc"
  shows "cell_occupants checked g rc = Inr (occupants_of L C pts rc)"
proof -
  have "occupants g ! cell_slot C rc = occupants_of L C pts rc"
    using assms(2,3) by blast
  moreover have "0 \<le> fst rc \<and> fst rc < int C \<and> 0 \<le> snd rc \<and> snd rc < int C"
    using assms(3) by (simp add: in_grid_def)
  ultimately show ?thesis using assms(1) by (simp add: cell_occupants_def)
qed

lemma scan_pair_total:
  assumes "0 < L"
  shows "(if i < j then visit L R pts (i, j) nb else Inr nb)
           = Inr (if accepted L R pts (i, j) then add_pair (fst (i, j)) (snd (i, j)) nb else nb)"
  using assms by (simp add: visit_total accepted_def)

lemma scan_block_total:
  assumes "side_cells g = C"
    and "\<forall>rc. in_grid C rc \<longrightarrow> occupants g ! cell_slot C rc = occupants_of L C pts rc"
    and "0 < L" and "\<forall>b\<in>set bs. in_grid C b"
  shows "scan_block checked g L R pts i bs nb
           = Inr (fold (\<lambda>p nb. if accepted L R pts p then add_pair (fst p) (snd p) nb else nb)
                    (concat (map (\<lambda>b. map (Pair i) (occupants_of L C pts b)) bs)) nb)"
proof -
  let ?step = "\<lambda>p nb. if accepted L R pts p then add_pair (fst p) (snd p) nb else nb"
  have inner: "foldE (\<lambda>j nb. if i < j then visit L R pts (i, j) nb else Inr nb) js nb
                 = Inr (fold ?step (map (Pair i) js) nb)" for js nb
  proof -
    have "foldE (\<lambda>j nb. if i < j then visit L R pts (i, j) nb else Inr nb) js nb
            = Inr (fold (\<lambda>j nb. ?step (i, j) nb) js nb)"
      by (rule foldE_total) (rule scan_pair_total [OF assms(3)])
    then show ?thesis by (simp add: fold_map comp_def)
  qed
  have "foldE (\<lambda>b nb. case cell_occupants checked g b of
                        Inl e \<Rightarrow> Inl e
                      | Inr js \<Rightarrow> foldE (\<lambda>j nb. if i < j then visit L R pts (i, j) nb
                                              else Inr nb) js nb) bs nb
          = Inr (fold (\<lambda>b nb. fold ?step (map (Pair i) (occupants_of L C pts b)) nb) bs nb)"
  proof (rule foldE_total)
    fix b nb
    assume "b \<in> set bs"
    then have "cell_occupants checked g b = Inr (occupants_of L C pts b)"
      using assms by (intro cell_occupants_total) simp_all
    then show "(case cell_occupants checked g b of
                  Inl e \<Rightarrow> Inl e
                | Inr js \<Rightarrow> foldE (\<lambda>j nb. if i < j then visit L R pts (i, j) nb
                                        else Inr nb) js nb)
               = Inr (fold ?step (map (Pair i) (occupants_of L C pts b)) nb)"
      by (simp add: inner)
  qed
  then show ?thesis unfolding scan_block_def by (simp only: fold_nested)
qed

lemma scan_cell_total:
  assumes "side_cells g = C"
    and "\<forall>rc. in_grid C rc \<longrightarrow> occupants g ! cell_slot C rc = occupants_of L C pts rc"
    and "0 < L" and "0 < C" and "in_grid C rc"
  shows "scan_cell checked g L R pts rc nb
           = Inr (fold (\<lambda>p nb. if accepted L R pts p then add_pair (fst p) (snd p) nb else nb)
                    (concat (map (\<lambda>i. concat (map (\<lambda>b. map (Pair i) (occupants_of L C pts b))
                                                 (block_cells C rc)))
                               (occupants_of L C pts rc))) nb)"
proof -
  let ?step = "\<lambda>p nb. if accepted L R pts p then add_pair (fst p) (snd p) nb else nb"
  let ?row = "\<lambda>i. concat (map (\<lambda>b. map (Pair i) (occupants_of L C pts b)) (block_cells C rc))"
  have blk: "\<forall>b\<in>set (block_cells C rc). in_grid C b"
    using block_cells_in_grid [OF assms(4)] by blast
  have occ: "cell_occupants checked g rc = Inr (occupants_of L C pts rc)"
    using assms(1,2,5) by (rule cell_occupants_total)
  have "foldE (\<lambda>i nb. scan_block checked g L R pts i (block_cells C rc) nb)
          (occupants_of L C pts rc) nb
        = Inr (fold (\<lambda>i nb. fold ?step (?row i) nb) (occupants_of L C pts rc) nb)"
    by (rule foldE_total) (rule scan_block_total [OF assms(1,2,3) blk])
  then show ?thesis unfolding scan_cell_def occ assms(1) by (simp only: fold_nested sum.case)
qed

lemma cell_list_total:
  assumes "0 < L" and "0 < R"
  shows "findNeighborsCellList pts L R checked
           = Inr (fold (\<lambda>p. add_pair (fst p) (snd p))
                    (filter (accepted L R pts) (cell_pairs L (grid_cells L R) pts))
                    (replicate (length pts) []))"
proof -
  let ?C = "grid_cells L R"
  let ?step = "\<lambda>p nb. if accepted L R pts p then add_pair (fst p) (snd p) nb else nb"
  let ?cell = "\<lambda>rc. concat (map (\<lambda>i. concat (map (\<lambda>b. map (Pair i) (occupants_of L ?C pts b))
                                               (block_cells ?C rc)))
                             (occupants_of L ?C pts rc))"
  let ?nb = "replicate (length pts) ([] :: nat list)"
  obtain g where g: "buildGrid pts L R = Inr g" and sc: "side_cells g = ?C"
    and oc: "\<forall>rc. in_grid ?C rc \<longrightarrow> occupants g ! cell_slot ?C rc = occupants_of L ?C pts rc"
    using buildGrid_total [OF assms] by blast
  have C: "0 < ?C" by (rule grid_cells_pos)
  have "foldE (scan_cell checked g L R pts) (all_cells ?C) ?nb
          = Inr (fold (\<lambda>rc nb. fold ?step (?cell rc) nb) (all_cells ?C) ?nb)"
    by (rule foldE_total) (rule scan_cell_total [OF sc oc assms(1) C all_cells_in_grid])
  also have "fold (\<lambda>rc nb. fold ?step (?cell rc) nb) (all_cells ?C) ?nb
               = fold ?step (cell_pairs L ?C pts) ?nb"
    unfolding cell_pairs_def by (rule fold_nested)
  also have "\<dots> = fold (\<lambda>p. add_pair (fst p) (snd p))
                      (filter (accepted L R pts) (cell_pairs L ?C pts)) ?nb"
    by (rule fold_filter_if)
  finally show ?thesis using assms g sc by (simp add: findNeighborsCellList_def)
qed

end
